theory Spec2Isabelle
  imports Complex_Main "HOL-Library.AList"
begin

section \<open>JavaScript values reaching the two components\<close>

text \<open>
  The note identities handed to \<^verbatim>\<open>Tone.PolySynth\<close> are arbitrary JavaScript values
  (\<^verbatim>\<open>string|number|Object|Array\<close> in the doc comments). The type of numbers is left
  open. An object is the list of its own enumerable properties in enumeration order.
\<close>

datatype 'n jsval =
    JUndefined
  | JNull
  | JBool bool
  | JNum 'n
  | JStr string
  | JArr "'n jsval list"
  | JObj "(string \<times> 'n jsval) list"

text \<open>
  A \<^verbatim>\<open>Tone.Time\<close> argument is a number of seconds or a string in Tone's time notation;
  an omitted (\<^verbatim>\<open>undefined\<close>) argument is \<open>None\<close>.
\<close>

datatype tonetime = TNum real | TStr string

text \<open>Truthiness of an optional \<^verbatim>\<open>Tone.Time\<close> argument, as tested by \<^verbatim>\<open>if (rampTime)\<close>.\<close>

fun truthy :: "tonetime option \<Rightarrow> bool" where
  "truthy None = False"
| "truthy (Some (TNum r)) = (r \<noteq> 0)"
| "truthy (Some (TStr s)) = (s \<noteq> [])"

text \<open>
  What a call of the pool can throw: the \<^verbatim>\<open>TypeError\<close> of \<^verbatim>\<open>JSON.stringify\<close>, and whatever a
  method of a Voice throws, which the pool does not catch.
\<close>

datatype error = TypeError | VoiceError

section \<open>Tone.PolySynth\<close>

text \<open>
  A Voice is an object of the external voice class; the pool holds references to it. A
  reference is the index at which the constructor created the Voice. The pool only ever
  calls methods of a Voice, so a Voice is represented by the calls it has received: the
  field \<open>trace\<close> lists every call forwarded to a Voice, oldest first.

  A method of a Voice may throw. \<^verbatim>\<open>triggerAttack\<close> is the one method that the pool calls
  between two updates of its own fields (the Voice has left the free queue and the key is
  not bound yet), so the behaviour of the voice class there is a parameter of the model:
  \<open>throws v c\<close> says that the Voice \<open>v\<close> throws on the call \<open>c\<close>. A Voice that throws has
  received the call. \<^verbatim>\<open>triggerRelease\<close>, \<^verbatim>\<open>set\<close> and \<^verbatim>\<open>setPreset\<close> are called before every
  update of their iteration, or in a loop that updates nothing; they are taken to return.
\<close>

type_synonym voice = nat

datatype 'n vcall =
    VConnect
  | VTriggerAttack "'n jsval" "tonetime option" "real option"
  | VTriggerRelease "tonetime option"
  | VSet "'n jsval"
  | VSetPreset string

text \<open>
  \<^verbatim>\<open>this._voices\<close>, \<^verbatim>\<open>this._freeVoices\<close> and \<^verbatim>\<open>this._activeVoices\<close>. The last is a
  plain object used as a dictionary: a property is absent (reads \<^verbatim>\<open>undefined\<close>), or holds
  \<^verbatim>\<open>null\<close> (\<open>None\<close>, after a release), or holds a Voice.
\<close>

record 'n polysynth =
  voices :: "voice list"
  freeVoices :: "voice list"
  activeVoices :: "(string \<times> voice option) list"
  trace :: "(voice \<times> 'n vcall) list"

text \<open>
  The constructor, with \<^verbatim>\<open>options.polyphony\<close> resolved to \<open>n\<close>: it creates the Voices
  \<open>0, ..., n - 1\<close>, connects each to the output, and copies the array into the free queue.
\<close>

definition PolySynth :: "nat \<Rightarrow> 'n polysynth" where
  "PolySynth n =
     \<lparr> voices = [0..<n],
       freeVoices = [0..<n],
       activeVoices = [],
       trace = map (\<lambda>i. (i, VConnect)) [0..<n] \<rparr>"

text \<open>
  \<^verbatim>\<open>this._activeVoices[stringified]\<close> read for its truth value: a Voice is truthy,
  \<^verbatim>\<open>undefined\<close> and \<^verbatim>\<open>null\<close> are falsy. (The text that \<^verbatim>\<open>JSON.stringify\<close> returns is
  never the name of a property inherited from \<^verbatim>\<open>Object.prototype\<close>.)
\<close>

definition active_voice :: "'n polysynth \<Rightarrow> string \<Rightarrow> voice option" where
  "active_voice s k = (case map_of (activeVoices s) k of Some (Some v) \<Rightarrow> Some v | _ \<Rightarrow> None)"

text \<open>\<^verbatim>\<open>if (!Array.isArray(value)) value = [value]\<close>\<close>

fun to_array :: "'n jsval \<Rightarrow> 'n jsval list" where
  "to_array (JArr vals) = vals"
| "to_array val = [val]"

text \<open>
  One iteration of the loop of \<^verbatim>\<open>triggerAttack\<close>, after \<^verbatim>\<open>JSON.stringify(val)\<close> has
  returned the key \<open>k\<close>. In the second branch the statements run in the order of the source:
  \<^verbatim>\<open>this._freeVoices.shift()\<close>, then \<^verbatim>\<open>voice.triggerAttack(val, time, velocity)\<close>, then the
  binding of the key. When the Voice throws, the binding is not reached and the Voice has
  already left the free queue.
\<close>

definition attack_step ::
  "(voice \<Rightarrow> 'n vcall \<Rightarrow> bool) \<Rightarrow> 'n polysynth \<Rightarrow> string \<Rightarrow> 'n jsval \<Rightarrow> tonetime option \<Rightarrow>
     real option \<Rightarrow> 'n polysynth \<times> error option" where
  "attack_step throws s k val time velocity =
     (case active_voice s k of
        Some v \<Rightarrow>
          (s\<lparr> trace := trace s @ [(v, VTriggerAttack val time velocity)] \<rparr>,
           if throws v (VTriggerAttack val time velocity) then Some VoiceError else None)
      | None \<Rightarrow>
          (case freeVoices s of
             [] \<Rightarrow> (s, None)
           | voice # rest \<Rightarrow>
               (let shifted = s\<lparr> freeVoices := rest \<rparr>;
                    called = shifted\<lparr> trace := trace shifted
                               @ [(voice, VTriggerAttack val time velocity)] \<rparr>
                in if throws voice (VTriggerAttack val time velocity)
                   then (called, Some VoiceError)
                   else (called\<lparr> activeVoices :=
                                   AList.update k (Some voice) (activeVoices called) \<rparr>,
                         None))))"

text \<open>
  The loop over the array. \<open>stringify\<close> stands for \<^verbatim>\<open>JSON.stringify\<close> followed by the
  conversion of its result to a property key; \<open>Inl\<close> is the exception it throws on a value it
  cannot serialize. An exception, of \<^verbatim>\<open>JSON.stringify\<close> or of a Voice, leaves the loop, and
  the pool keeps what was done until then: the result is the pool after the call and the
  exception, if any.
\<close>

fun attack_loop ::
  "('n jsval \<Rightarrow> error + string) \<Rightarrow> (voice \<Rightarrow> 'n vcall \<Rightarrow> bool) \<Rightarrow> 'n polysynth \<Rightarrow>
     'n jsval list \<Rightarrow> tonetime option \<Rightarrow> real option \<Rightarrow> 'n polysynth \<times> error option" where
  "attack_loop stringify throws s [] time velocity = (s, None)"
| "attack_loop stringify throws s (val # vals) time velocity =
     (case stringify val of
        Inl e \<Rightarrow> (s, Some e)
      | Inr k \<Rightarrow>
          (case attack_step throws s k val time velocity of
             (s', Some e) \<Rightarrow> (s', Some e)
           | (s', None) \<Rightarrow> attack_loop stringify throws s' vals time velocity))"

definition triggerAttack ::
  "('n jsval \<Rightarrow> error + string) \<Rightarrow> (voice \<Rightarrow> 'n vcall \<Rightarrow> bool) \<Rightarrow> 'n polysynth \<Rightarrow>
     'n jsval \<Rightarrow> tonetime option \<Rightarrow> real option \<Rightarrow> 'n polysynth \<times> error option" where
  "triggerAttack stringify throws s value time velocity =
     attack_loop stringify throws s (to_array value) time velocity"

text \<open>One iteration of the loop of \<^verbatim>\<open>triggerRelease\<close>, for the key \<open>k\<close>.\<close>

definition release_step :: "'n polysynth \<Rightarrow> string \<Rightarrow> tonetime option \<Rightarrow> 'n polysynth" where
  "release_step s k time =
     (case active_voice s k of
        Some voice \<Rightarrow>
          s\<lparr> trace := trace s @ [(voice, VTriggerRelease time)],
             freeVoices := freeVoices s @ [voice],
             activeVoices := AList.update k None (activeVoices s) \<rparr>
      | None \<Rightarrow> s)"

fun release_loop ::
  "('n jsval \<Rightarrow> error + string) \<Rightarrow> 'n polysynth \<Rightarrow> 'n jsval list \<Rightarrow> tonetime option \<Rightarrow>
     'n polysynth \<times> error option" where
  "release_loop stringify s [] time = (s, None)"
| "release_loop stringify s (val # vals) time =
     (case stringify val of
        Inl e \<Rightarrow> (s, Some e)
      | Inr k \<Rightarrow> release_loop stringify (release_step s k time) vals time)"

definition triggerRelease ::
  "('n jsval \<Rightarrow> error + string) \<Rightarrow> 'n polysynth \<Rightarrow> 'n jsval \<Rightarrow> tonetime option \<Rightarrow>
     'n polysynth \<times> error option" where
  "triggerRelease stringify s value time =
     release_loop stringify s (to_array value) time"

text \<open>
  \<^verbatim>\<open>triggerAttackRelease\<close>. \<open>toSeconds\<close> is the method of the same name inherited from the
  Tone core; an exception of \<^verbatim>\<open>triggerAttack\<close> skips the release.
\<close>

definition triggerAttackRelease ::
  "('n jsval \<Rightarrow> error + string) \<Rightarrow> (tonetime option \<Rightarrow> real) \<Rightarrow> (voice \<Rightarrow> 'n vcall \<Rightarrow> bool) \<Rightarrow>
     'n polysynth \<Rightarrow> 'n jsval \<Rightarrow> tonetime option \<Rightarrow> tonetime option \<Rightarrow> real option \<Rightarrow>
     'n polysynth \<times> error option" where
  "triggerAttackRelease stringify toSeconds throws s value duration time velocity =
     (let time' = toSeconds time in
      case triggerAttack stringify throws s value (Some (TNum time')) velocity of
        (s', Some e) \<Rightarrow> (s', Some e)
      | (s', None) \<Rightarrow>
          triggerRelease stringify s' value (Some (TNum (time' + toSeconds duration))))"

text \<open>
  \<^verbatim>\<open>set\<close> and \<^verbatim>\<open>setPreset\<close>: a loop over \<^verbatim>\<open>this._voices\<close> that calls the method of the
  same name on each Voice. Neither function has a \<^verbatim>\<open>return\<close> statement.
\<close>

fun forward_loop :: "'n polysynth \<Rightarrow> voice list \<Rightarrow> 'n vcall \<Rightarrow> 'n polysynth" where
  "forward_loop s [] c = s"
| "forward_loop s (v # vs) c = forward_loop (s\<lparr> trace := trace s @ [(v, c)] \<rparr>) vs c"

definition set_params :: "'n polysynth \<Rightarrow> 'n jsval \<Rightarrow> 'n polysynth" where
  "set_params s params = forward_loop s (voices s) (VSet params)"

definition setPreset :: "'n polysynth \<Rightarrow> string \<Rightarrow> 'n polysynth" where
  "setPreset s presetName = forward_loop s (voices s) (VSetPreset presetName)"

subsection \<open>Sequences of calls\<close>

datatype 'n call =
    TriggerAttack "'n jsval" "tonetime option" "real option"
  | TriggerRelease "'n jsval" "tonetime option"

text \<open>The pool after a call, whether the call returned or threw.\<close>

fun exec ::
  "('n jsval \<Rightarrow> error + string) \<Rightarrow> (voice \<Rightarrow> 'n vcall \<Rightarrow> bool) \<Rightarrow> 'n polysynth \<Rightarrow> 'n call \<Rightarrow>
     'n polysynth" where
  "exec stringify throws s (TriggerAttack value time velocity) =
     fst (triggerAttack stringify throws s value time velocity)"
| "exec stringify throws s (TriggerRelease value time) =
     fst (triggerRelease stringify s value time)"

definition run ::
  "('n jsval \<Rightarrow> error + string) \<Rightarrow> (voice \<Rightarrow> 'n vcall \<Rightarrow> bool) \<Rightarrow> 'n polysynth \<Rightarrow> 'n call list \<Rightarrow>
     'n polysynth" where
  "run stringify throws s cs = foldl (exec stringify throws) s cs"

subsection \<open>What the specification observes of a pool\<close>

text \<open>The Voices bound in the Active Map, one entry for each bound key.\<close>

fun bound_voices :: "(string \<times> voice option) list \<Rightarrow> voice list" where
  "bound_voices [] = []"
| "bound_voices ((k, Some v) # al) = v # bound_voices al"
| "bound_voices ((k, None) # al) = bound_voices al"

text \<open>
  The Free List and the bound Voices partition the Voices \<open>0, ..., n - 1\<close> of the pool: no
  Voice occurs twice among them, and each Voice of the pool occurs among them.
\<close>

definition pool_inv :: "nat \<Rightarrow> 'n polysynth \<Rightarrow> bool" where
  "pool_inv n s \<longleftrightarrow>
     voices s = [0..<n] \<and>
     distinct (map fst (activeVoices s)) \<and>
     distinct (freeVoices s @ bound_voices (activeVoices s)) \<and>
     set (freeVoices s @ bound_voices (activeVoices s)) = {0..<n}"

text \<open>
  The part of it that does not ask for every Voice to be listed: no Voice occurs twice
  among the Free List and the bound Voices, and each of those is a Voice of the pool.
\<close>

definition pool_disjoint :: "nat \<Rightarrow> 'n polysynth \<Rightarrow> bool" where
  "pool_disjoint n s \<longleftrightarrow>
     voices s = [0..<n] \<and>
     distinct (freeVoices s @ bound_voices (activeVoices s)) \<and>
     set (freeVoices s @ bound_voices (activeVoices s)) \<subseteq> {0..<n}"

subsection \<open>The velocity a Voice gives to a note\<close>

text \<open>
  Modelled from the spec: the \<^verbatim>\<open>triggerAttack\<close> of the voice class is not among the sources.
  The specification has an attack begin "at an optional velocity (defaults to a full-scale
  value when omitted)", and the doc comment of \<^verbatim>\<open>Tone.PolySynth.prototype.triggerAttack\<close>
  gives that value as \<^verbatim>\<open>[velocity=1]\<close>: a Voice that receives no velocity uses 1.
\<close>

definition voice_velocity :: "real option \<Rightarrow> real" where
  "voice_velocity velocity = (case velocity of None \<Rightarrow> 1 | Some given \<Rightarrow> given)"

text \<open>The velocity of the note that a Voice starts on a call it has received.\<close>

fun note_velocity :: "'n vcall \<Rightarrow> real option" where
  "note_velocity (VTriggerAttack val time velocity) = Some (voice_velocity velocity)"
| "note_velocity c = None"

subsection \<open>The composition the specification gives for attackRelease\<close>

text \<open>
  Following the specification's words: resolve \<open>time\<close> to an absolute instant, \<open>now\<close> when
  it is omitted; issue the attack at that instant; then issue the release of the same
  identities at that instant plus the duration.
\<close>

definition attackRelease_spec ::
  "('n jsval \<Rightarrow> error + string) \<Rightarrow> (tonetime option \<Rightarrow> real) \<Rightarrow> real \<Rightarrow>
     (voice \<Rightarrow> 'n vcall \<Rightarrow> bool) \<Rightarrow> 'n polysynth \<Rightarrow> 'n jsval \<Rightarrow> tonetime option \<Rightarrow>
     tonetime option \<Rightarrow> real option \<Rightarrow> 'n polysynth \<times> error option" where
  "attackRelease_spec stringify toSeconds now throws s value duration time velocity =
     (let t = (case time of None \<Rightarrow> now | Some x \<Rightarrow> toSeconds (Some x));
          attacked = triggerAttack stringify throws s value (Some (TNum t)) velocity
      in if snd attacked = None
         then triggerRelease stringify (fst attacked) value
                (Some (TNum (t + toSeconds duration)))
         else attacked)"

subsection \<open>JSON.stringify on values with integer numbers\<close>

text \<open>
  The serialization of ECMAScript for the values above whose numbers are integers printed
  in plain decimal digits. It instantiates \<open>stringify\<close> in the examples.
\<close>

fun show_nat :: "nat \<Rightarrow> string" where
  "show_nat n =
     (if n < 10 then [''0123456789'' ! n]
      else show_nat (n div 10) @ [''0123456789'' ! (n mod 10)])"

definition show_int :: "int \<Rightarrow> string" where
  "show_int i = (if i < 0 then CHR ''-'' # show_nat (nat (- i)) else show_nat (nat i))"

definition escape_char :: "char \<Rightarrow> string" where
  "escape_char c =
     (if c = CHR 0x22 then [CHR 0x5C, CHR 0x22]
      else if c = CHR 0x5C then [CHR 0x5C, CHR 0x5C]
      else if c = CHR 0x08 then [CHR 0x5C, CHR ''b'']
      else if c = CHR 0x09 then [CHR 0x5C, CHR ''t'']
      else if c = CHR 0x0A then [CHR 0x5C, CHR ''n'']
      else if c = CHR 0x0C then [CHR 0x5C, CHR ''f'']
      else if c = CHR 0x0D then [CHR 0x5C, CHR ''r'']
      else if (of_char c :: nat) < 32
        then [CHR 0x5C, CHR ''u'', CHR ''0'', CHR ''0'',
              ''0123456789abcdef'' ! ((of_char c :: nat) div 16),
              ''0123456789abcdef'' ! ((of_char c :: nat) mod 16)]
      else [c])"

definition quote :: "string \<Rightarrow> string" where
  "quote str = CHR 0x22 # concat (map escape_char str) @ [CHR 0x22]"

fun commas :: "string list \<Rightarrow> string" where
  "commas [] = []"
| "commas [x] = x"
| "commas (x # y # ys) = x @ '','' @ commas (y # ys)"

text \<open>
  \<open>None\<close> is the result \<^verbatim>\<open>undefined\<close>: an \<^verbatim>\<open>undefined\<close> element of an array prints as
  \<^verbatim>\<open>null\<close>, an \<^verbatim>\<open>undefined\<close> property of an object is left out.
\<close>

fun serialize :: "int jsval \<Rightarrow> string option"
  and serialize_elements :: "int jsval list \<Rightarrow> string list"
  and serialize_properties :: "(string \<times> int jsval) list \<Rightarrow> string list" where
  "serialize JUndefined = None"
| "serialize JNull = Some ''null''"
| "serialize (JBool b) = Some (if b then ''true'' else ''false'')"
| "serialize (JNum i) = Some (show_int i)"
| "serialize (JStr str) = Some (quote str)"
| "serialize (JArr vals) = Some (''['' @ commas (serialize_elements vals) @ '']'')"
| "serialize (JObj props) = Some (''{'' @ commas (serialize_properties props) @ ''}'')"
| "serialize_elements [] = []"
| "serialize_elements (val # vals) =
     (case serialize val of None \<Rightarrow> ''null'' | Some txt \<Rightarrow> txt) # serialize_elements vals"
| "serialize_properties [] = []"
| "serialize_properties ((name, val) # props) =
     (case serialize val of
        None \<Rightarrow> serialize_properties props
      | Some txt \<Rightarrow> (quote name @ '':'' @ txt) # serialize_properties props)"

text \<open>
  The property key that \<^verbatim>\<open>this._activeVoices[JSON.stringify(val)]\<close> uses: the result
  \<^verbatim>\<open>undefined\<close> becomes the key \<^verbatim>\<open>undefined\<close>. No value of this type makes the
  serialization throw.
\<close>

definition JSON_stringify :: "int jsval \<Rightarrow> error + string" where
  "JSON_stringify val = Inr (case serialize val of None \<Rightarrow> ''undefined'' | Some txt \<Rightarrow> txt)"

section \<open>Tone.FeedbackEffect\<close>

text \<open>
  The effect is represented by what its own code does to its collaborators: the calls made
  on the Signal \<^verbatim>\<open>this.feedback\<close>, oldest first, and the connections it makes between the
  nodes of the audio graph.
\<close>

datatype node = EffectSend | EffectReturn | FeedbackGain | FeedbackGainParam | FeedbackSignal

datatype sigcall =
    NewSignal real
  | SetValue real
  | LinearRampToValueNow real "tonetime option"

record feedback_effect =
  feedback :: "sigcall list"
  connections :: "(node \<times> node) list"

text \<open>
  Modelled from the spec: the method \<^verbatim>\<open>chain\<close> of the Tone core is not among the sources.
  The specification has the return path wired "back into its send path through a gain
  stage": the receiver is connected to the first argument and each argument to the next.
\<close>

fun chain :: "node \<Rightarrow> node list \<Rightarrow> (node \<times> node) list" where
  "chain n [] = []"
| "chain n (m # ms) = (n, m) # chain m ms"

text \<open>The constructor; \<open>None\<close> is an omitted \<^verbatim>\<open>feedback\<close> option, which defaults to 0.125.\<close>

definition FeedbackEffect :: "real option \<Rightarrow> feedback_effect" where
  "FeedbackEffect initialFeedback =
     \<lparr> feedback = [NewSignal (case initialFeedback of None \<Rightarrow> 0.125 | Some f \<Rightarrow> f)],
       connections =
         chain EffectReturn [FeedbackGain, EffectSend] @ [(FeedbackSignal, FeedbackGainParam)] \<rparr>"

definition setFeedback :: "feedback_effect \<Rightarrow> real \<Rightarrow> tonetime option \<Rightarrow> feedback_effect" where
  "setFeedback fe value rampTime =
     (if truthy rampTime
      then fe\<lparr> feedback := feedback fe @ [LinearRampToValueNow value rampTime] \<rparr>
      else fe\<lparr> feedback := feedback fe @ [SetValue value] \<rparr>)"

section \<open>Example inputs\<close>

text \<open>A voice class whose methods never throw.\<close>

definition never :: "voice \<Rightarrow> int vcall \<Rightarrow> bool" where
  "never v c = False"

text \<open>A voice class whose \<^verbatim>\<open>triggerAttack\<close> throws on the note \<^verbatim>\<open>null\<close>, which it cannot play.\<close>

definition rejects_null :: "voice \<Rightarrow> int vcall \<Rightarrow> bool" where
  "rejects_null v c = (case c of VTriggerAttack JNull time velocity \<Rightarrow> True | _ \<Rightarrow> False)"

text \<open>
  Two Voices of that class: \<^verbatim>\<open>null\<close> is attacked twice, A4 is attacked, A4 is released.
\<close>

definition leaking_calls :: "int call list" where
  "leaking_calls =
     [TriggerAttack JNull None None,
      TriggerAttack JNull None None,
      TriggerAttack (JStr ''A4'') None None,
      TriggerRelease (JStr ''A4'') None]"

text \<open>
  Four Voices; attack the batch C4, E4, G4 at time 0, attack C5, attack B3 (dropped),
  release E4.
\<close>

definition scenario :: "int call list" where
  "scenario =
     [TriggerAttack (JArr [JStr ''C4'', JStr ''E4'', JStr ''G4'']) (Some (TNum 0)) None,
      TriggerAttack (JStr ''C5'') None None,
      TriggerAttack (JStr ''B3'') None None,
      TriggerRelease (JStr ''E4'') None]"

text \<open>A pool of two Voices after the attack of the batch C4, E4: no Voice is free.\<close>

definition exhausted_pool :: "int polysynth" where
  "exhausted_pool =
     \<lparr> voices = [0, 1], freeVoices = [],
       activeVoices = [([CHR 0x22, CHR ''C'', CHR ''4'', CHR 0x22], Some 0),
                       ([CHR 0x22, CHR ''E'', CHR ''4'', CHR 0x22], Some 1)],
       trace = [(0, VConnect), (1, VConnect),
                (0, VTriggerAttack (JStr ''C4'') None None),
                (1, VTriggerAttack (JStr ''E4'') None None)] \<rparr>"

text \<open>That pool after the release of C4: the Voice 0 is free again, E4 sounds on.\<close>

definition half_released_pool :: "int polysynth" where
  "half_released_pool =
     \<lparr> voices = [0, 1], freeVoices = [0],
       activeVoices = [([CHR 0x22, CHR ''C'', CHR ''4'', CHR 0x22], None),
                       ([CHR 0x22, CHR ''E'', CHR ''4'', CHR 0x22], Some 1)],
       trace = [(0, VConnect), (1, VConnect),
                (0, VTriggerAttack (JStr ''C4'') None None),
                (1, VTriggerAttack (JStr ''E4'') None None),
                (0, VTriggerRelease None)] \<rparr>"

text \<open>A pool of four Voices after the attack of A4: the Voice 0 holds the note.\<close>

definition sounding_pool :: "int polysynth" where
  "sounding_pool =
     \<lparr> voices = [0, 1, 2, 3], freeVoices = [1, 2, 3],
       activeVoices = [([CHR 0x22, CHR ''A'', CHR ''4'', CHR 0x22], Some 0)],
       trace = [(0, VConnect), (1, VConnect), (2, VConnect), (3, VConnect),
                (0, VTriggerAttack (JStr ''A4'') None None)] \<rparr>"

text \<open>The pool of four Voices after the attack and the release of A4.\<close>

definition released_pool :: "int polysynth" where
  "released_pool =
     \<lparr> voices = [0, 1, 2, 3], freeVoices = [1, 2, 3, 0],
       activeVoices = [([CHR 0x22, CHR ''A'', CHR ''4'', CHR 0x22], None)],
       trace = [(0, VConnect), (1, VConnect), (2, VConnect), (3, VConnect),
                (0, VTriggerAttack (JStr ''A4'') None None),
                (0, VTriggerRelease None)] \<rparr>"

text \<open>
  Two note descriptors that differ as values (the first carries an \<^verbatim>\<open>undefined\<close>
  property) and have the same serialization.
\<close>

definition chord_a :: "int jsval" where
  "chord_a = JObj [(''note'', JStr ''C4''), (''bend'', JUndefined)]"

definition chord_b :: "int jsval" where
  "chord_b = JObj [(''note'', JStr ''C4'')]"

definition chord_key :: string where
  "chord_key = ''{'' @ quote ''note'' @ '':'' @ quote ''C4'' @ ''}''"

text \<open>A parameter bundle for \<^verbatim>\<open>set\<close>.\<close>

definition portamento_params :: "int jsval" where
  "portamento_params = JObj [(''portamento'', JNum 0)]"

text \<open>
  The Tone core's \<^verbatim>\<open>toSeconds\<close> on a clock that reads \<open>now\<close>: an omitted time is \<open>now\<close>,
  a number is taken as seconds. Strings in Tone's notation are not interpreted here (they
  read as \<open>now\<close>).
\<close>

definition toSeconds_at :: "real \<Rightarrow> tonetime option \<Rightarrow> real" where
  "toSeconds_at now time = (case time of Some (TNum secs) \<Rightarrow> secs | _ \<Rightarrow> now)"

section \<open>The pool invariant\<close>

lemma bound_voices_mem:
  "map_of al k = Some (Some v) \<Longrightarrow> v \<in> set (bound_voices al)"
  by (induction al rule: bound_voices.induct) (auto split: if_splits)

lemma bound_voices_bind:
  "\<forall>w. map_of al k \<noteq> Some (Some w) \<Longrightarrow>
   set (bound_voices (AList.update k (Some v) al)) = insert v (set (bound_voices al))"
  by (induction al rule: bound_voices.induct) (auto split: if_splits)

lemma bound_voices_bind_distinct:
  "\<forall>w. map_of al k \<noteq> Some (Some w) \<Longrightarrow> v \<notin> set (bound_voices al) \<Longrightarrow>
   distinct (bound_voices al) \<Longrightarrow>
   distinct (bound_voices (AList.update k (Some v) al))"
  by (induction al rule: bound_voices.induct) (auto split: if_splits simp: bound_voices_bind)

lemma bound_voices_unbind:
  "map_of al k = Some (Some v) \<Longrightarrow> distinct (bound_voices al) \<Longrightarrow>
   set (bound_voices (AList.update k None al)) = set (bound_voices al) - {v}"
  by (induction al rule: bound_voices.induct) (auto split: if_splits dest: bound_voices_mem)

lemma bound_voices_unbind_subset:
  "set (bound_voices (AList.update k None al)) \<subseteq> set (bound_voices al)"
  by (induction al rule: bound_voices.induct) (auto split: if_splits)

lemma bound_voices_unbind_distinct:
  "distinct (bound_voices al) \<Longrightarrow> distinct (bound_voices (AList.update k None al))"
  using bound_voices_unbind_subset [of k]
  by (induction al rule: bound_voices.induct) (auto split: if_splits)

lemma active_voice_Some: "active_voice s k = Some v \<longleftrightarrow> map_of (activeVoices s) k = Some (Some v)"
  by (simp add: active_voice_def split: option.splits)

lemma active_voice_None: "active_voice s k = None \<longleftrightarrow> (\<forall>w. map_of (activeVoices s) k \<noteq> Some (Some w))"
  by (simp add: active_voice_def split: option.splits)

text \<open>The four ways through an iteration of the attack loop.\<close>

lemma attack_step_bound:
  "active_voice s k = Some v \<Longrightarrow>
   attack_step throws s k val time velocity =
     (s\<lparr> trace := trace s @ [(v, VTriggerAttack val time velocity)] \<rparr>,
      if throws v (VTriggerAttack val time velocity) then Some VoiceError else None)"
  by (simp add: attack_step_def)

lemma attack_step_dropped:
  "active_voice s k = None \<Longrightarrow> freeVoices s = [] \<Longrightarrow>
   attack_step throws s k val time velocity = (s, None)"
  by (simp add: attack_step_def)

lemma attack_step_allocated:
  "active_voice s k = None \<Longrightarrow> freeVoices s = voice # rest \<Longrightarrow>
   \<not> throws voice (VTriggerAttack val time velocity) \<Longrightarrow>
   attack_step throws s k val time velocity =
     (s\<lparr> freeVoices := rest,
         trace := trace s @ [(voice, VTriggerAttack val time velocity)],
         activeVoices := AList.update k (Some voice) (activeVoices s) \<rparr>, None)"
  by (simp add: attack_step_def)

lemma attack_step_lost:
  "active_voice s k = None \<Longrightarrow> freeVoices s = voice # rest \<Longrightarrow>
   throws voice (VTriggerAttack val time velocity) \<Longrightarrow>
   attack_step throws s k val time velocity =
     (s\<lparr> freeVoices := rest,
         trace := trace s @ [(voice, VTriggerAttack val time velocity)] \<rparr>, Some VoiceError)"
  by (simp add: attack_step_def)

lemma release_step_bound:
  "active_voice s k = Some v \<Longrightarrow>
   release_step s k time =
     s\<lparr> trace := trace s @ [(v, VTriggerRelease time)],
        freeVoices := freeVoices s @ [v],
        activeVoices := AList.update k None (activeVoices s) \<rparr>"
  by (simp add: release_step_def)

lemma release_step_unbound: "active_voice s k = None \<Longrightarrow> release_step s k time = s"
  by (simp add: release_step_def)

subsection \<open>While every attack returns, the pool stays partitioned\<close>

lemma pool_inv_PolySynth: "pool_inv n (PolySynth n)"
  by (simp add: pool_inv_def PolySynth_def)

lemma pool_inv_attack_step:
  assumes inv: "pool_inv n s" and returns: "\<forall>v c. \<not> throws v c"
  shows "pool_inv n (fst (attack_step throws s k val time velocity))"
proof (cases "active_voice s k")
  case (Some v)
  with inv show ?thesis by (simp add: attack_step_bound pool_inv_def)
next
  case None
  note unbound = None [unfolded active_voice_None]
  show ?thesis
  proof (cases "freeVoices s")
    case Nil
    with None inv show ?thesis by (simp add: attack_step_dropped)
  next
    case (Cons voice rest)
    from inv Cons have fresh: "voice \<notin> set rest" "voice \<notin> set (bound_voices (activeVoices s))"
      and dist: "distinct rest" "distinct (bound_voices (activeVoices s))"
        "set rest \<inter> set (bound_voices (activeVoices s)) = {}"
      and all: "insert voice (set rest \<union> set (bound_voices (activeVoices s))) = {0..<n}"
      by (auto simp: pool_inv_def)
    have keys: "distinct (map fst (AList.update k (Some voice) (activeVoices s)))"
      using inv by (simp add: pool_inv_def distinct_update)
    have "fst (attack_step throws s k val time velocity) =
      s\<lparr> freeVoices := rest,
         trace := trace s @ [(voice, VTriggerAttack val time velocity)],
         activeVoices := AList.update k (Some voice) (activeVoices s) \<rparr>"
      using None Cons returns by (simp add: attack_step_allocated)
    then show ?thesis
      using inv fresh dist all unbound keys
      by (simp add: pool_inv_def bound_voices_bind bound_voices_bind_distinct)
  qed
qed

lemma pool_inv_release_step:
  assumes "pool_inv n s"
  shows "pool_inv n (release_step s k time)"
proof (cases "active_voice s k")
  case None
  with assms show ?thesis by (simp add: release_step_unbound)
next
  case (Some voice)
  note bound = Some [unfolded active_voice_Some]
  have mem: "voice \<in> set (bound_voices (activeVoices s))"
    using bound by (rule bound_voices_mem)
  have dist: "distinct (bound_voices (activeVoices s))"
    using assms by (simp add: pool_inv_def)
  have keys: "distinct (map fst (AList.update k None (activeVoices s)))"
    using assms by (simp add: pool_inv_def distinct_update)
  show ?thesis
    using assms mem keys bound_voices_unbind [OF bound dist]
      bound_voices_unbind_distinct [OF dist, of k]
    by (simp add: pool_inv_def release_step_bound [OF Some]) blast
qed

lemma pool_inv_attack_loop:
  "pool_inv n s \<Longrightarrow> \<forall>v c. \<not> throws v c \<Longrightarrow>
   pool_inv n (fst (attack_loop stringify throws s vals time velocity))"
proof (induction vals arbitrary: s)
  case Nil
  then show ?case by simp
next
  case (Cons val vals)
  show ?case
  proof (cases "stringify val")
    case (Inl err)
    with Cons.prems show ?thesis by simp
  next
    case (Inr k)
    obtain s' e where step: "attack_step throws s k val time velocity = (s', e)"
      by (cases "attack_step throws s k val time velocity")
    have inv': "pool_inv n s'"
      using pool_inv_attack_step [OF Cons.prems, of k val time velocity] by (simp add: step)
    have rest: "pool_inv n (fst (attack_loop stringify throws s' vals time velocity))"
      using inv' Cons.prems(2) by (rule Cons.IH)
    show ?thesis
      using Inr step inv' rest by (cases e) simp_all
  qed
qed

lemma pool_inv_release_loop:
  "pool_inv n s \<Longrightarrow> pool_inv n (fst (release_loop stringify s vals time))"
  by (induction vals arbitrary: s) (auto split: sum.splits intro: pool_inv_release_step)

lemma pool_inv_exec:
  assumes inv: "pool_inv n s" and returns: "\<forall>v c. \<not> throws v c"
  shows "pool_inv n (exec stringify throws s c)"
proof (cases c)
  case (TriggerAttack arg time velocity)
  show ?thesis
    unfolding TriggerAttack exec.simps triggerAttack_def
    using inv returns by (rule pool_inv_attack_loop)
next
  case (TriggerRelease arg time)
  show ?thesis
    unfolding TriggerRelease exec.simps triggerRelease_def
    using inv by (rule pool_inv_release_loop)
qed

lemma pool_inv_run:
  assumes inv: "pool_inv n s" and returns: "\<forall>v c. \<not> throws v c"
  shows "pool_inv n (run stringify throws s cs)"
  using inv
proof (induction cs arbitrary: s)
  case Nil
  then show ?case by (simp add: run_def)
next
  case (Cons c cs)
  have "pool_inv n (exec stringify throws s c)"
    using Cons.prems returns by (rule pool_inv_exec)
  then have "pool_inv n (run stringify throws (exec stringify throws s c) cs)"
    by (rule Cons.IH)
  then show ?case by (simp add: run_def)
qed

lemma partition_while_attacks_return:
  assumes returns: "\<forall>v c. \<not> throws v c"
  shows "let s = run stringify throws (PolySynth N) cs;
       free = freeVoices s;
       bound = bound_voices (activeVoices s)
   in voices s = [0..<N] \<and>
      (\<forall>v. v < N \<longrightarrow> (v \<in> set free) \<noteq> (v \<in> set bound)) \<and>
      set free \<inter> set bound = {} \<and>
      set free \<union> set bound = {0..<N} \<and>
      distinct free \<and> distinct bound \<and>
      length free + card (set bound) = N"
proof -
  define s where "s = run stringify throws (PolySynth N) cs"
  define free where "free = freeVoices s"
  define bound where "bound = bound_voices (activeVoices s)"
  have inv: "pool_inv N s"
    unfolding s_def by (rule pool_inv_run [OF pool_inv_PolySynth returns])
  then have vs: "voices s = [0..<N]"
    by (simp add: pool_inv_def)
  from inv have d: "distinct (free @ bound)" and u: "set (free @ bound) = {0..<N}"
    by (simp_all add: pool_inv_def free_def bound_def)
  from d have disj: "set free \<inter> set bound = {}" and df: "distinct free" and db: "distinct bound"
    by auto
  from u have un: "set free \<union> set bound = {0..<N}" by simp
  have "length (free @ bound) = card (set (free @ bound))"
    using d by (simp only: distinct_card)
  also have "\<dots> = N" unfolding u by simp
  finally have "length free + length bound = N" by simp
  then have cnt: "length free + card (set bound) = N"
    using db by (simp add: distinct_card)
  have one: "\<forall>v. v < N \<longrightarrow> (v \<in> set free) \<noteq> (v \<in> set bound)"
    using disj un by auto
  show ?thesis
    using vs one disj un df db cnt by (simp add: Let_def s_def free_def bound_def)
qed

subsection \<open>What holds of the pool whatever the Voices do\<close>

lemma pool_disjoint_PolySynth: "pool_disjoint n (PolySynth n)"
  by (simp add: pool_disjoint_def PolySynth_def)

lemma pool_disjoint_attack_step:
  assumes inv: "pool_disjoint n s"
  shows "pool_disjoint n (fst (attack_step throws s k val time velocity))"
proof (cases "active_voice s k")
  case (Some v)
  with inv show ?thesis by (simp add: attack_step_bound pool_disjoint_def)
next
  case None
  note unbound = None [unfolded active_voice_None]
  show ?thesis
  proof (cases "freeVoices s")
    case Nil
    with None inv show ?thesis by (simp add: attack_step_dropped)
  next
    case (Cons voice rest)
    from inv Cons have fresh: "voice \<notin> set rest" "voice \<notin> set (bound_voices (activeVoices s))"
      and dist: "distinct rest" "distinct (bound_voices (activeVoices s))"
        "set rest \<inter> set (bound_voices (activeVoices s)) = {}"
      and sub: "voice < n" "set rest \<subseteq> {0..<n}" "set (bound_voices (activeVoices s)) \<subseteq> {0..<n}"
      by (auto simp: pool_disjoint_def)
    show ?thesis
    proof (cases "throws voice (VTriggerAttack val time velocity)")
      case True
      then show ?thesis
        using None Cons inv dist sub by (simp add: attack_step_lost pool_disjoint_def)
    next
      case False
      then show ?thesis
        using None Cons inv fresh dist sub unbound
        by (simp add: attack_step_allocated pool_disjoint_def bound_voices_bind
            bound_voices_bind_distinct)
    qed
  qed
qed

lemma pool_disjoint_release_step:
  assumes "pool_disjoint n s"
  shows "pool_disjoint n (release_step s k time)"
proof (cases "active_voice s k")
  case None
  with assms show ?thesis by (simp add: release_step_unbound)
next
  case (Some voice)
  note bound = Some [unfolded active_voice_Some]
  have mem: "voice \<in> set (bound_voices (activeVoices s))"
    using bound by (rule bound_voices_mem)
  have dist: "distinct (bound_voices (activeVoices s))"
    using assms by (simp add: pool_disjoint_def)
  have free: "distinct (freeVoices s)" "set (freeVoices s) \<subseteq> {0..<n}"
      "set (freeVoices s) \<inter> set (bound_voices (activeVoices s)) = {}"
      "set (bound_voices (activeVoices s)) \<subseteq> {0..<n}"
    using assms by (auto simp: pool_disjoint_def)
  have new: "set (bound_voices (AList.update k None (activeVoices s)))
      = set (bound_voices (activeVoices s)) - {voice}"
    by (rule bound_voices_unbind [OF bound dist])
  have new_dist: "distinct (bound_voices (AList.update k None (activeVoices s)))"
    by (rule bound_voices_unbind_distinct [OF dist])
  have "voices s = [0..<n]"
    using assms by (simp add: pool_disjoint_def)
  moreover have "distinct ((freeVoices s @ [voice])
      @ bound_voices (AList.update k None (activeVoices s)))"
    using free mem new new_dist by auto
  moreover have "set ((freeVoices s @ [voice])
      @ bound_voices (AList.update k None (activeVoices s))) \<subseteq> {0..<n}"
    using free mem new by auto
  ultimately show ?thesis
    by (simp add: pool_disjoint_def release_step_bound [OF Some])
qed

lemma pool_disjoint_attack_loop:
  "pool_disjoint n s \<Longrightarrow>
   pool_disjoint n (fst (attack_loop stringify throws s vals time velocity))"
proof (induction vals arbitrary: s)
  case Nil
  then show ?case by simp
next
  case (Cons val vals)
  show ?case
  proof (cases "stringify val")
    case (Inl err)
    with Cons.prems show ?thesis by simp
  next
    case (Inr k)
    obtain s' e where step: "attack_step throws s k val time velocity = (s', e)"
      by (cases "attack_step throws s k val time velocity")
    have "pool_disjoint n s'"
      using pool_disjoint_attack_step [OF Cons.prems, of throws k val time velocity] step by simp
    then show ?thesis
      using Inr step Cons.IH [of s'] by (cases e) simp_all
  qed
qed

lemma pool_disjoint_release_loop:
  "pool_disjoint n s \<Longrightarrow> pool_disjoint n (fst (release_loop stringify s vals time))"
  by (induction vals arbitrary: s) (auto split: sum.splits intro: pool_disjoint_release_step)

lemma pool_disjoint_exec: "pool_disjoint n s \<Longrightarrow> pool_disjoint n (exec stringify throws s c)"
  by (cases c)
     (simp_all add: triggerAttack_def triggerRelease_def pool_disjoint_attack_loop
        pool_disjoint_release_loop)

lemma pool_disjoint_run: "pool_disjoint n s \<Longrightarrow> pool_disjoint n (run stringify throws s cs)"
  unfolding run_def by (induction cs arbitrary: s) (simp_all add: pool_disjoint_exec)

lemma never_free_and_bound:
  "let s = run stringify throws (PolySynth N) cs;
       free = freeVoices s;
       bound = bound_voices (activeVoices s)
   in voices s = [0..<N] \<and>
      set free \<inter> set bound = {} \<and>
      set free \<union> set bound \<subseteq> {0..<N} \<and>
      distinct free \<and> distinct bound \<and>
      length free + card (set bound) \<le> N"
proof -
  define s where "s = run stringify throws (PolySynth N) cs"
  define free where "free = freeVoices s"
  define bound where "bound = bound_voices (activeVoices s)"
  have inv: "pool_disjoint N s"
    unfolding s_def by (rule pool_disjoint_run [OF pool_disjoint_PolySynth])
  then have vs: "voices s = [0..<N]"
    by (simp add: pool_disjoint_def)
  from inv have d: "distinct (free @ bound)" and u: "set (free @ bound) \<subseteq> {0..<N}"
    by (simp_all add: pool_disjoint_def free_def bound_def)
  from d have disj: "set free \<inter> set bound = {}" and df: "distinct free" and db: "distinct bound"
    by auto
  from u have un: "set free \<union> set bound \<subseteq> {0..<N}" by simp
  have "length (free @ bound) = card (set (free @ bound))"
    using d by (simp only: distinct_card)
  also have "\<dots> \<le> card {0..<N}"
    using u by (intro card_mono) simp_all
  finally have "length free + length bound \<le> N" by simp
  then have cnt: "length free + card (set bound) \<le> N"
    using db by (simp add: distinct_card)
  show ?thesis
    using vs disj un df db cnt by (simp add: Let_def s_def free_def bound_def)
qed

subsection \<open>A Voice that throws on its attack is lost to the pool\<close>

lemma pool_inv_covers:
  "pool_inv n s \<Longrightarrow> v < n \<Longrightarrow>
   v \<in> set (freeVoices s) \<or> v \<in> set (bound_voices (activeVoices s))"
  by (auto simp: pool_inv_def)

lemma null_attack_throws:
  "triggerAttack JSON_stringify rejects_null (PolySynth 2) JNull None None
     = (\<lparr> voices = [0, 1], freeVoices = [1], activeVoices = [],
          trace = [(0, VConnect), (1, VConnect), (0, VTriggerAttack JNull None None)] \<rparr>,
        Some VoiceError)"
  by code_simp

lemma leaking_run:
  "run JSON_stringify rejects_null (PolySynth 2) leaking_calls
     = \<lparr> voices = [0, 1], freeVoices = [], activeVoices = [],
         trace = [(0, VConnect), (1, VConnect), (0, VTriggerAttack JNull None None),
                  (1, VTriggerAttack JNull None None)] \<rparr>"
  by code_simp

text \<open>
  Claim C1, at an input where the code breaks it. A pool of two Voices whose
  \<^verbatim>\<open>triggerAttack\<close> throws on \<^verbatim>\<open>null\<close>: the attack of \<^verbatim>\<open>null\<close> throws, and after it the Voice
  0 is neither in the Free List nor bound, so that the length of the Free List plus the
  number of bound Voices is 1, not 2. After a second such attack no Voice is left: the attack
  of A4 is dropped, and the pool of two Voices has none free and none bound.
\<close>

theorem throwing_attack_loses_voice:
  "snd (triggerAttack JSON_stringify rejects_null (PolySynth 2) JNull None None)
     = Some VoiceError \<and>
   (let s = fst (triggerAttack JSON_stringify rejects_null (PolySynth 2) JNull None None)
    in voices s = [0, 1] \<and> freeVoices s = [1] \<and> bound_voices (activeVoices s) = [] \<and>
       0 \<notin> set (freeVoices s) \<and> 0 \<notin> set (bound_voices (activeVoices s)) \<and>
       length (freeVoices s) + card (set (bound_voices (activeVoices s))) = 1 \<and>
       \<not> pool_inv 2 s) \<and>
   (let s = run JSON_stringify rejects_null (PolySynth 2) leaking_calls
    in voices s = [0, 1] \<and> freeVoices s = [] \<and> bound_voices (activeVoices s) = [] \<and>
       length (freeVoices s) + card (set (bound_voices (activeVoices s))) = 0 \<and>
       \<not> pool_inv 2 s)"
proof -
  have first: "\<not> pool_inv 2 (fst (triggerAttack JSON_stringify rejects_null (PolySynth 2)
      JNull None None))"
    using pool_inv_covers [of 2 "fst (triggerAttack JSON_stringify rejects_null (PolySynth 2)
      JNull None None)" 0]
    by (auto simp: null_attack_throws)
  have last: "\<not> pool_inv 2 (run JSON_stringify rejects_null (PolySynth 2) leaking_calls)"
    using pool_inv_covers [of 2 "run JSON_stringify rejects_null (PolySynth 2) leaking_calls" 0]
    by (auto simp: leaking_run)
  show ?thesis
    using first last by (simp add: null_attack_throws leaking_run)
qed

section \<open>The loops\<close>


lemma release_loop_append:
  "release_loop stringify s (xs @ ys) time =
     (case release_loop stringify s xs time of
        (s', None) \<Rightarrow> release_loop stringify s' ys time
      | (s', Some e) \<Rightarrow> (s', Some e))"
  by (induction xs arbitrary: s) (simp_all split: sum.splits)

lemma attack_step_trace:
  "\<exists>new. trace (fst (attack_step throws s k val time velocity)) = trace s @ new \<and>
     (\<forall>e \<in> set new. \<exists>v. e = (v, VTriggerAttack val time velocity))"
  by (cases "active_voice s k"; cases "freeVoices s") (simp_all add: attack_step_def Let_def)

lemma attack_loop_trace:
  "\<exists>new. trace (fst (attack_loop stringify throws s vals time velocity)) = trace s @ new \<and>
     (\<forall>e \<in> set new. \<exists>v val. val \<in> set vals \<and> e = (v, VTriggerAttack val time velocity))"
proof (induction vals arbitrary: s)
  case Nil
  then show ?case by simp
next
  case (Cons val vals)
  show ?case
  proof (cases "stringify val")
    case (Inl err)
    then show ?thesis by simp
  next
    case (Inr k)
    obtain s' e where step: "attack_step throws s k val time velocity = (s', e)"
      by (cases "attack_step throws s k val time velocity")
    obtain new1 where n1: "trace s' = trace s @ new1"
        "\<forall>e \<in> set new1. \<exists>v. e = (v, VTriggerAttack val time velocity)"
      using attack_step_trace [of throws s k val time velocity] by (auto simp: step)
    show ?thesis
    proof (cases e)
      case (Some err)
      then have "trace (fst (attack_loop stringify throws s (val # vals) time velocity))
          = trace s @ new1"
        using Inr step n1(1) by simp
      moreover have "\<forall>e \<in> set new1.
          \<exists>v val'. val' \<in> set (val # vals) \<and> e = (v, VTriggerAttack val' time velocity)"
        using n1(2) by fastforce
      ultimately show ?thesis by blast
    next
      case None
      obtain new2 where n2:
          "trace (fst (attack_loop stringify throws s' vals time velocity)) = trace s' @ new2"
          "\<forall>e \<in> set new2. \<exists>v val. val \<in> set vals \<and> e = (v, VTriggerAttack val time velocity)"
        using Cons.IH by blast
      have "trace (fst (attack_loop stringify throws s (val # vals) time velocity))
          = trace s @ (new1 @ new2)"
        using Inr step None n1(1) n2(1) by simp
      moreover have "\<forall>e \<in> set (new1 @ new2).
          \<exists>v val'. val' \<in> set (val # vals) \<and> e = (v, VTriggerAttack val' time velocity)"
        using n1(2) n2(2) by fastforce
      ultimately show ?thesis by blast
    qed
  qed
qed

lemma release_step_trace:
  "\<exists>new. trace (release_step s k time) = trace s @ new \<and>
     (\<forall>e \<in> set new. \<exists>v. e = (v, VTriggerRelease time))"
  by (cases "active_voice s k") (simp_all add: release_step_def)

lemma release_loop_trace:
  "\<exists>new. trace (fst (release_loop stringify s vals time)) = trace s @ new \<and>
     (\<forall>e \<in> set new. \<exists>v. e = (v, VTriggerRelease time))"
proof (induction vals arbitrary: s)
  case Nil
  then show ?case by simp
next
  case (Cons val vals)
  show ?case
  proof (cases "stringify val")
    case (Inl err)
    then show ?thesis by simp
  next
    case (Inr k)
    obtain new1 where n1: "trace (release_step s k time) = trace s @ new1"
        "\<forall>e \<in> set new1. \<exists>v. e = (v, VTriggerRelease time)"
      using release_step_trace by blast
    obtain new2 where n2: "trace (fst (release_loop stringify (release_step s k time) vals time))
          = trace (release_step s k time) @ new2"
        "\<forall>e \<in> set new2. \<exists>v. e = (v, VTriggerRelease time)"
      using Cons.IH by blast
    have "trace (fst (release_loop stringify s (val # vals) time)) = trace s @ (new1 @ new2)"
      using Inr n1(1) n2(1) by simp
    moreover have "\<forall>e \<in> set (new1 @ new2). \<exists>v. e = (v, VTriggerRelease time)"
      using n1(2) n2(2) by fastforce
    ultimately show ?thesis by blast
  qed
qed

lemma appended_take_drop:
  "xs' = xs @ new \<Longrightarrow> take (length xs) xs' = xs \<and> drop (length xs) xs' = new"
  by simp

lemma active_voice_release_step_same: "active_voice (release_step s k time) k = None"
  by (cases "active_voice s k")
     (simp_all add: release_step_bound release_step_unbound, simp add: active_voice_def update_conv')

lemma active_voice_release_step_other:
  "active_voice s k' = None \<Longrightarrow> active_voice (release_step s k time) k' = None"
  by (cases "active_voice s k")
     (simp_all add: release_step_bound release_step_unbound, simp add: active_voice_def update_conv')

lemma release_loop_unbound:
  "active_voice s k = None \<Longrightarrow>
   active_voice (fst (release_loop stringify s vals time)) k = None"
  by (induction vals arbitrary: s) (simp_all split: sum.splits add: active_voice_release_step_other)

lemma release_step_keeps_free:
  "v \<in> set (freeVoices s) \<Longrightarrow> v \<in> set (freeVoices (release_step s k time))"
  by (cases "active_voice s k") (simp_all add: release_step_bound release_step_unbound)

lemma release_loop_keeps_free:
  "v \<in> set (freeVoices s) \<Longrightarrow> v \<in> set (freeVoices (fst (release_loop stringify s vals time)))"
  by (induction vals arbitrary: s) (simp_all split: sum.splits add: release_step_keeps_free)

lemma release_loop_keeps_trace:
  "c \<in> set (trace s) \<Longrightarrow> c \<in> set (trace (fst (release_loop stringify s vals time)))"
  using release_loop_trace [of stringify s vals time] by auto

section \<open>triggerAttack\<close>





lemma a4_key: "JSON_stringify (JStr ''A4'') = Inr [CHR 0x22, CHR ''A'', CHR ''4'', CHR 0x22]"
  by code_simp

lemma a4_attacked:
  "triggerAttack JSON_stringify never (PolySynth 4) (JStr ''A4'') None None = (sounding_pool, None)"
  by code_simp

lemma a4_bound: "active_voice sounding_pool [CHR 0x22, CHR ''A'', CHR ''4'', CHR 0x22] = Some 0"
  by (simp add: sounding_pool_def active_voice_def)

lemma a4_single: "to_array (JStr ''A4'' :: int jsval) = [JStr ''A4'']"
  by simp



section \<open>triggerRelease\<close>

text \<open>
  Claim C4. When the loop of \<^verbatim>\<open>triggerRelease\<close> reaches, at any place of a batch, an
  identity \<open>val\<close> whose key is bound to a Voice \<open>v\<close> (the pool \<open>s'\<close> is what the identities
  \<open>pre\<close> before it left), the release is forwarded to \<open>v\<close> with the time of the call, \<open>v\<close> is
  appended to the back of the Free List, and the key is unbound in the Active Map (its
  property now holds \<^verbatim>\<open>null\<close>); the loop goes on with the identities \<open>post\<close> after it, and
  when the call is over the key is still unbound, \<open>v\<close> is in the Free List and \<open>v\<close> has
  received the release. A value that is the one identity \<open>val\<close> is the batch of it alone.
\<close>

theorem release_bound:
  assumes pre: "release_loop stringify s pre time = (s', None)"
    and key: "stringify val = Inr k"
    and bound: "active_voice s' k = Some v"
  shows "release_step s' k time
      = s'\<lparr> trace := trace s' @ [(v, VTriggerRelease time)],
            freeVoices := freeVoices s' @ [v],
            activeVoices := AList.update k None (activeVoices s') \<rparr> \<and>
    triggerRelease stringify s (JArr (pre @ val # post)) time
      = release_loop stringify (release_step s' k time) post time \<and>
    triggerRelease stringify s (JArr (pre @ [val])) time = (release_step s' k time, None) \<and>
    (\<forall>value. to_array value = [val] \<longrightarrow>
       triggerRelease stringify s' value time = (release_step s' k time, None)) \<and>
    (let released = release_step s' k time
     in active_voice released k = None \<and>
        map_of (activeVoices released) k = Some None \<and>
        last (freeVoices released) = v) \<and>
    (let after = fst (triggerRelease stringify s (JArr (pre @ val # post)) time)
     in active_voice after k = None \<and>
        v \<in> set (freeVoices after) \<and>
        (v, VTriggerRelease time) \<in> set (trace after))"
proof -
  define released where "released = release_step s' k time"
  have step: "released
      = s'\<lparr> trace := trace s' @ [(v, VTriggerRelease time)],
            freeVoices := freeVoices s' @ [v],
            activeVoices := AList.update k None (activeVoices s') \<rparr>"
    unfolding released_def using bound by (rule release_step_bound)
  have batch: "triggerRelease stringify s (JArr (pre @ val # post)) time
      = release_loop stringify released post time"
    by (simp add: triggerRelease_def release_loop_append pre key released_def)
  have alone: "triggerRelease stringify s (JArr (pre @ [val])) time = (released, None)"
    by (simp add: triggerRelease_def release_loop_append pre key released_def)
  have single: "\<forall>value. to_array value = [val] \<longrightarrow>
       triggerRelease stringify s' value time = (released, None)"
    by (simp add: triggerRelease_def key released_def)
  have unbound: "active_voice released k = None"
    unfolding released_def by (rule active_voice_release_step_same)
  have is_null: "map_of (activeVoices released) k = Some None"
    by (simp add: step update_conv')
  have at_back: "last (freeVoices released) = v"
    by (simp add: step)
  have free: "v \<in> set (freeVoices released)"
    by (simp add: step)
  have called: "(v, VTriggerRelease time) \<in> set (trace released)"
    by (simp add: step)
  have still_unbound:
    "active_voice (fst (release_loop stringify released post time)) k = None"
    using unbound by (rule release_loop_unbound)
  have still_free: "v \<in> set (freeVoices (fst (release_loop stringify released post time)))"
    using free by (rule release_loop_keeps_free)
  have still_called:
    "(v, VTriggerRelease time) \<in> set (trace (fst (release_loop stringify released post time)))"
    using called by (rule release_loop_keeps_trace)
  show ?thesis
    unfolding Let_def batch released_def [symmetric]
    using step alone single unbound is_null at_back still_unbound still_free still_called
    by (intro conjI) (rule refl | assumption)+
qed

lemma c4_key: "JSON_stringify (JStr ''C4'') = Inr [CHR 0x22, CHR ''C'', CHR ''4'', CHR 0x22]"
  by code_simp

lemma e4_key: "JSON_stringify (JStr ''E4'') = Inr [CHR 0x22, CHR ''E'', CHR ''4'', CHR 0x22]"
  by code_simp

lemma c4_released:
  "release_loop JSON_stringify exhausted_pool [JStr ''C4''] None = (half_released_pool, None)"
  by code_simp

lemma e4_bound: "active_voice half_released_pool [CHR 0x22, CHR ''E'', CHR ''4'', CHR 0x22] = Some 1"
  by (simp add: half_released_pool_def active_voice_def)

lemma no_release_yet: "release_loop JSON_stringify sounding_pool [] None = (sounding_pool, None)"
  by simp

text \<open>
  C4 and E4 sound on the two Voices of a pool and are released in one batch: E4, the second
  of the batch, is unbound and its Voice 1 is at the back of the Free List, behind the
  Voice 0 of C4. And the round trip: attack A4 on a fresh pool of four Voices, then release
  A4; the Voice 0 that served it is at the back of the Free List and the key of A4 is
  unbound.
\<close>

theorem release_bound_witness:
  "triggerRelease JSON_stringify exhausted_pool (JArr [JStr ''C4'', JStr ''E4'']) None
     = (half_released_pool
          \<lparr> trace := trace half_released_pool @ [(1, VTriggerRelease None)],
            freeVoices := [0, 1],
            activeVoices := [([CHR 0x22, CHR ''C'', CHR ''4'', CHR 0x22], None),
                             ([CHR 0x22, CHR ''E'', CHR ''4'', CHR 0x22], None)] \<rparr>, None) \<and>
   triggerAttack JSON_stringify never (PolySynth 4) (JStr ''A4'') None None = (sounding_pool, None) \<and>
   freeVoices (fst (triggerRelease JSON_stringify sounding_pool (JStr ''A4'') None)) = [1, 2, 3, 0] \<and>
   active_voice (fst (triggerRelease JSON_stringify sounding_pool (JStr ''A4'') None))
     [CHR 0x22, CHR ''A'', CHR ''4'', CHR 0x22] = None \<and>
   trace (fst (triggerRelease JSON_stringify sounding_pool (JStr ''A4'') None))
     = trace sounding_pool @ [(0, VTriggerRelease None)]"
proof -
  have e4_step: "release_step half_released_pool [CHR 0x22, CHR ''E'', CHR ''4'', CHR 0x22] None
      = half_released_pool
          \<lparr> trace := trace half_released_pool @ [(1, VTriggerRelease None)],
            freeVoices := freeVoices half_released_pool @ [1],
            activeVoices := AList.update [CHR 0x22, CHR ''E'', CHR ''4'', CHR 0x22] None
              (activeVoices half_released_pool) \<rparr>"
    and batch: "triggerRelease JSON_stringify exhausted_pool
        (JArr ([JStr ''C4''] @ [JStr ''E4''])) None
      = (release_step half_released_pool [CHR 0x22, CHR ''E'', CHR ''4'', CHR 0x22] None, None)"
    using release_bound [where stringify = JSON_stringify and val = "JStr ''E4''"
        and pre = "[JStr ''C4'']" and post = "[]", OF c4_released e4_key e4_bound]
    by blast+
  have both: "triggerRelease JSON_stringify exhausted_pool (JArr [JStr ''C4'', JStr ''E4'']) None
     = (half_released_pool
          \<lparr> trace := trace half_released_pool @ [(1, VTriggerRelease None)],
            freeVoices := [0, 1],
            activeVoices := [([CHR 0x22, CHR ''C'', CHR ''4'', CHR 0x22], None),
                             ([CHR 0x22, CHR ''E'', CHR ''4'', CHR 0x22], None)] \<rparr>, None)"
    using batch unfolding e4_step by (simp add: half_released_pool_def)
  have a4_step: "release_step sounding_pool [CHR 0x22, CHR ''A'', CHR ''4'', CHR 0x22] None
      = sounding_pool
          \<lparr> trace := trace sounding_pool @ [(0, VTriggerRelease None)],
            freeVoices := freeVoices sounding_pool @ [0],
            activeVoices := AList.update [CHR 0x22, CHR ''A'', CHR ''4'', CHR 0x22] None
              (activeVoices sounding_pool) \<rparr>"
    and a4_unbound:
      "active_voice (release_step sounding_pool [CHR 0x22, CHR ''A'', CHR ''4'', CHR 0x22] None)
         [CHR 0x22, CHR ''A'', CHR ''4'', CHR 0x22] = None"
    and a4_call: "\<forall>arg. to_array arg = [JStr ''A4''] \<longrightarrow>
      triggerRelease JSON_stringify sounding_pool arg None
        = (release_step sounding_pool [CHR 0x22, CHR ''A'', CHR ''4'', CHR 0x22] None, None)"
    using release_bound [where stringify = JSON_stringify and val = "JStr ''A4''"
        and pre = "[]" and post = "[]" and time = None, OF no_release_yet a4_key a4_bound]
    unfolding Let_def by blast+
  have rel: "triggerRelease JSON_stringify sounding_pool (JStr ''A4'') None
      = (release_step sounding_pool [CHR 0x22, CHR ''A'', CHR ''4'', CHR 0x22] None, None)"
    using a4_call a4_single by blast
  have free: "freeVoices (fst (triggerRelease JSON_stringify sounding_pool (JStr ''A4'') None))
      = [1, 2, 3, 0]"
    unfolding rel fst_conv a4_step by (simp add: sounding_pool_def)
  have tr: "trace (fst (triggerRelease JSON_stringify sounding_pool (JStr ''A4'') None))
      = trace sounding_pool @ [(0, VTriggerRelease None)]"
    unfolding rel fst_conv a4_step by simp
  have unb: "active_voice (fst (triggerRelease JSON_stringify sounding_pool (JStr ''A4'') None))
     [CHR 0x22, CHR ''A'', CHR ''4'', CHR 0x22] = None"
    unfolding rel fst_conv by (rule a4_unbound)
  show ?thesis
    using both a4_attacked free unb tr by (intro conjI)
qed

lemma release_loop_again:
  "release_loop stringify s vals time = (s', e) \<Longrightarrow>
   release_loop stringify s' vals time' = (s', e)"
proof (induction vals arbitrary: s)
  case Nil
  then show ?case by simp
next
  case (Cons val vals)
  show ?case
  proof (cases "stringify val")
    case (Inl err)
    with Cons.prems show ?thesis by auto
  next
    case (Inr k)
    with Cons.prems have rest: "release_loop stringify (release_step s k time) vals time = (s', e)"
      by simp
    have "active_voice (fst (release_loop stringify (release_step s k time) vals time)) k = None"
      by (rule release_loop_unbound) (rule active_voice_release_step_same)
    then have "release_step s' k time' = s'"
      by (simp add: rest release_step_unbound)
    then show ?thesis
      using Inr Cons.IH [OF rest] by simp
  qed
qed

text \<open>
  Claim C5. A release of an identity whose key is unbound (its property in the Active Map
  is absent, the identity never attacked, or holds \<^verbatim>\<open>null\<close>, the identity already
  released) raises no error and leaves the whole pool as it was: Free List, Active Map and
  the calls received by every Voice. A second release of the same value, when the first
  has just been made, returns the pool that the first left, with the outcome of the first.
\<close>

theorem release_unbound_noop:
  "(to_array value = [val] \<and> stringify val = Inr k \<and>
      (map_of (activeVoices s) k = None \<or> map_of (activeVoices s) k = Some None)
      \<longrightarrow> triggerRelease stringify s value time = (s, None)) \<and>
   triggerRelease stringify (fst (triggerRelease stringify s value time)) value time'
     = triggerRelease stringify s value time"
proof
  show "to_array value = [val] \<and> stringify val = Inr k \<and>
      (map_of (activeVoices s) k = None \<or> map_of (activeVoices s) k = Some None)
      \<longrightarrow> triggerRelease stringify s value time = (s, None)"
  proof
    assume h: "to_array value = [val] \<and> stringify val = Inr k \<and>
      (map_of (activeVoices s) k = None \<or> map_of (activeVoices s) k = Some None)"
    then have "active_voice s k = None"
      by (auto simp: active_voice_def)
    then have "release_step s k time = s"
      by (rule release_step_unbound)
    with h show "triggerRelease stringify s value time = (s, None)"
      by (simp add: triggerRelease_def)
  qed
next
  obtain s' e where r: "release_loop stringify s (to_array value) time = (s', e)"
    by (cases "release_loop stringify s (to_array value) time")
  from release_loop_again [OF r, of time']
  show "triggerRelease stringify (fst (triggerRelease stringify s value time)) value time'
     = triggerRelease stringify s value time"
    by (simp add: triggerRelease_def r)
qed

lemma a4_released:
  "triggerRelease JSON_stringify sounding_pool (JStr ''A4'') None = (released_pool, None)"
  by code_simp

lemma b4_key: "JSON_stringify (JStr ''B4'') = Inr [CHR 0x22, CHR ''B'', CHR ''4'', CHR 0x22]"
  by code_simp

text \<open>
  A4 released a second time, at another time, and B4 released without having been
  attacked: the pool stays as the first release of A4 left it.
\<close>

theorem release_unbound_noop_witness:
  "triggerRelease JSON_stringify released_pool (JStr ''A4'') (Some (TNum 1)) = (released_pool, None) \<and>
   triggerRelease JSON_stringify released_pool (JStr ''B4'') None = (released_pool, None) \<and>
   triggerRelease JSON_stringify
       (fst (triggerRelease JSON_stringify sounding_pool (JStr ''A4'') None)) (JStr ''A4'') None
     = (released_pool, None)"
proof -
  have again: "map_of (activeVoices released_pool) [CHR 0x22, CHR ''A'', CHR ''4'', CHR 0x22] = Some None"
    by (simp add: released_pool_def)
  have never_attacked:
    "map_of (activeVoices released_pool) [CHR 0x22, CHR ''B'', CHR ''4'', CHR 0x22] = None"
    by (simp add: released_pool_def)
  have "triggerRelease JSON_stringify released_pool (JStr ''A4'') (Some (TNum 1)) = (released_pool, None)"
    using release_unbound_noop [of "JStr ''A4''" "JStr ''A4''" JSON_stringify
        "[CHR 0x22, CHR ''A'', CHR ''4'', CHR 0x22]" released_pool "Some (TNum 1)"] a4_key again
    by simp
  moreover have "triggerRelease JSON_stringify released_pool (JStr ''B4'') None = (released_pool, None)"
    using release_unbound_noop [of "JStr ''B4''" "JStr ''B4''" JSON_stringify
        "[CHR 0x22, CHR ''B'', CHR ''4'', CHR 0x22]" released_pool None] b4_key never_attacked
    by simp
  moreover have "triggerRelease JSON_stringify
       (fst (triggerRelease JSON_stringify sounding_pool (JStr ''A4'') None)) (JStr ''A4'') None
     = (released_pool, None)"
    using release_unbound_noop [of "JStr ''A4''" _ JSON_stringify _ sounding_pool None None]
      a4_released
    by simp
  ultimately show ?thesis by blast
qed

section \<open>Canonical keys\<close>

lemma release_loop_keys:
  "map stringify xs = map stringify ys \<Longrightarrow>
   release_loop stringify s xs time = release_loop stringify s ys time"
proof (induction xs arbitrary: ys s)
  case Nil
  then show ?case by simp
next
  case (Cons x xs)
  then obtain y ys' where ys: "ys = y # ys'" and hd: "stringify x = stringify y"
    and tl: "map stringify xs = map stringify ys'"
    by (cases ys) auto
  show ?case
    using Cons.IH [OF tl] by (simp add: ys hd split: sum.splits)
qed

lemma attack_step_binds:
  assumes avail: "active_voice s k = Some v \<or> (active_voice s k = None \<and> freeVoices s = v # rest)"
    and returns: "\<not> throws v (VTriggerAttack val time velocity)"
  shows "snd (attack_step throws s k val time velocity) = None \<and>
   active_voice (fst (attack_step throws s k val time velocity)) k = Some v \<and>
   trace (fst (attack_step throws s k val time velocity))
     = trace s @ [(v, VTriggerAttack val time velocity)]"
proof (cases "active_voice s k")
  case (Some w)
  with avail have "w = v" by auto
  with Some returns show ?thesis
    by (simp add: attack_step_bound) (simp add: active_voice_def)
next
  case None
  with avail have free: "freeVoices s = v # rest" by auto
  show ?thesis
    using None free returns
    by (simp add: attack_step_allocated) (simp add: active_voice_def update_conv')
qed

text \<open>
  Claim C8. The identities are the elements of the batch (a value that is not an array is
  a batch of one). Let \<open>a\<close> and \<open>b\<close> be identities with the same serialization \<open>k\<close>, and let
  the attack of \<open>a\<close> find a Voice \<open>v\<close>, the one already bound to \<open>k\<close> or else the front of the
  Free List, and return from it. Then after the attack \<open>k\<close> is bound to \<open>v\<close>; a release of \<open>b\<close>
  is forwarded to \<open>v\<close>, returns \<open>v\<close> to the back of the Free List and unbinds \<open>k\<close>, exactly as
  a release of \<open>a\<close> does; and an attack of \<open>b\<close> goes to \<open>v\<close> again. Two batches whose
  elements have the same serializations, one by one, are released alike in every pool.
\<close>

theorem same_serialization_same_note:
  assumes ka: "stringify a = Inr k"
    and kb: "stringify b = Inr k"
    and sa: "to_array va = [a]"
    and sb: "to_array vb = [b]"
    and avail: "active_voice s k = Some v \<or> (active_voice s k = None \<and> freeVoices s = v # rest)"
    and returns: "\<not> throws v (VTriggerAttack a time velocity)"
  shows "(let s1 = fst (triggerAttack stringify throws s va time velocity)
     in snd (triggerAttack stringify throws s va time velocity) = None \<and>
        active_voice s1 k = Some v \<and>
        trace s1 = trace s @ [(v, VTriggerAttack a time velocity)] \<and>
        triggerRelease stringify s1 vb time'
          = (s1\<lparr> trace := trace s1 @ [(v, VTriggerRelease time')],
                 freeVoices := freeVoices s1 @ [v],
                 activeVoices := AList.update k None (activeVoices s1) \<rparr>, None) \<and>
        triggerRelease stringify s1 vb time' = triggerRelease stringify s1 va time' \<and>
        triggerAttack stringify throws s1 vb time' velocity'
          = (s1\<lparr> trace := trace s1 @ [(v, VTriggerAttack b time' velocity')] \<rparr>,
             if throws v (VTriggerAttack b time' velocity') then Some VoiceError else None)) \<and>
    (\<forall>x y p t. map stringify (to_array x) = map stringify (to_array y) \<longrightarrow>
       triggerRelease stringify p x t = triggerRelease stringify p y t)"
proof -
  define s1 where "s1 = fst (attack_step throws s k a time velocity)"
  have step: "attack_step throws s k a time velocity = (s1, None)"
    using attack_step_binds [where throws = throws, OF avail returns] by (simp add: s1_def prod_eq_iff)
  have att: "triggerAttack stringify throws s va time velocity = (s1, None)"
    by (simp add: triggerAttack_def sa ka step)
  have bound: "active_voice s1 k = Some v"
    and tr: "trace s1 = trace s @ [(v, VTriggerAttack a time velocity)]"
    unfolding s1_def using attack_step_binds [where throws = throws, OF avail returns] by blast+
  have rel_b: "triggerRelease stringify s1 vb time'
      = (s1\<lparr> trace := trace s1 @ [(v, VTriggerRelease time')],
             freeVoices := freeVoices s1 @ [v],
             activeVoices := AList.update k None (activeVoices s1) \<rparr>, None)"
    using bound by (simp add: triggerRelease_def sb kb release_step_bound)
  have rel_eq: "triggerRelease stringify s1 vb time' = triggerRelease stringify s1 va time'"
    by (simp add: triggerRelease_def sa sb ka kb)
  have att_b: "triggerAttack stringify throws s1 vb time' velocity'
      = (s1\<lparr> trace := trace s1 @ [(v, VTriggerAttack b time' velocity')] \<rparr>,
         if throws v (VTriggerAttack b time' velocity') then Some VoiceError else None)"
    using bound by (simp add: triggerAttack_def sb kb attack_step_bound)
  have batches: "\<forall>x y p t. map stringify (to_array x) = map stringify (to_array y) \<longrightarrow>
       triggerRelease stringify p x t = triggerRelease stringify p y t"
    unfolding triggerRelease_def by (blast intro: release_loop_keys)
  show ?thesis
    unfolding Let_def att fst_conv snd_conv
    using bound tr rel_b rel_eq att_b batches by (intro conjI) (assumption | rule refl)+
qed

lemma chord_a_key: "JSON_stringify chord_a = Inr chord_key"
  by code_simp

lemma chord_b_key: "JSON_stringify chord_b = Inr chord_key"
  by code_simp

lemma chord_distinct: "chord_a \<noteq> chord_b"
  by (simp add: chord_a_def chord_b_def)

lemma chord_attacked:
  "freeVoices (fst (triggerAttack JSON_stringify never (PolySynth 4) chord_a None None)) = [1, 2, 3]"
  by code_simp

text \<open>
  On a fresh pool of four Voices the descriptor with the \<^verbatim>\<open>undefined\<close> property is
  attacked and the one without it is released: the Voice 0 is back in the Free List.
\<close>

theorem same_serialization_same_note_witness:
  "chord_a \<noteq> chord_b \<and>
   JSON_stringify chord_a = JSON_stringify chord_b \<and>
   freeVoices (fst (triggerRelease JSON_stringify
      (fst (triggerAttack JSON_stringify never (PolySynth 4) chord_a None None)) chord_b None))
     = [1, 2, 3, 0]"
proof -
  have single_a: "to_array chord_a = [chord_a]" and single_b: "to_array chord_b = [chord_b]"
    by (simp_all add: chord_a_def chord_b_def)
  have avail: "active_voice (PolySynth 4 :: int polysynth) chord_key = Some 0 \<or>
      (active_voice (PolySynth 4 :: int polysynth) chord_key = None \<and>
       freeVoices (PolySynth 4 :: int polysynth) = 0 # [1, 2, 3])"
    by code_simp
  have returns: "\<not> never 0 (VTriggerAttack chord_a None None)"
    by (simp add: never_def)
  have "triggerRelease JSON_stringify
      (fst (triggerAttack JSON_stringify never (PolySynth 4) chord_a None None)) chord_b None
    = ((fst (triggerAttack JSON_stringify never (PolySynth 4) chord_a None None))
        \<lparr> trace := trace (fst (triggerAttack JSON_stringify never (PolySynth 4) chord_a None None))
             @ [(0, VTriggerRelease None)],
          freeVoices := freeVoices (fst (triggerAttack JSON_stringify never (PolySynth 4) chord_a None None))
             @ [0],
          activeVoices := AList.update chord_key None
             (activeVoices (fst (triggerAttack JSON_stringify never (PolySynth 4) chord_a None None))) \<rparr>,
       None)"
    using same_serialization_same_note [where stringify = JSON_stringify and throws = never
        and time = None and velocity = None and time' = None,
        OF chord_a_key chord_b_key single_a single_b avail returns]
    unfolding Let_def by blast
  then show ?thesis
    using chord_distinct chord_a_key chord_b_key chord_attacked by simp
qed

section \<open>set and setPreset\<close>

lemma forward_loop_trace:
  "forward_loop s vs c = s\<lparr> trace := trace s @ map (\<lambda>v. (v, c)) vs \<rparr>"
  by (induction vs arbitrary: s) simp_all

lemma voices_run: "voices (run stringify throws (PolySynth N) cs) = [0..<N]"
  using pool_disjoint_run [OF pool_disjoint_PolySynth, of N stringify throws cs]
  by (simp add: pool_disjoint_def)

text \<open>
  Claim C7. \<^verbatim>\<open>set(params)\<close> and \<^verbatim>\<open>setPreset(name)\<close> call the method of the same name,
  with the same argument, once on every Voice of \<^verbatim>\<open>this._voices\<close> in pool order, and change
  nothing else of the pool. After any sequence of attacks and releases on a pool of
  polyphony \<open>N\<close> these are the Voices \<open>0, ..., N - 1\<close>, whatever has become of them: the
  free and the bound ones, which are all of them as long as every attack has returned.
\<close>

theorem bulk_set_reaches_every_voice:
  "set_params s params = s\<lparr> trace := trace s @ map (\<lambda>v. (v, VSet params)) (voices s) \<rparr> \<and>
   setPreset s presetName
     = s\<lparr> trace := trace s @ map (\<lambda>v. (v, VSetPreset presetName)) (voices s) \<rparr> \<and>
   (let p = run stringify throws (PolySynth N) cs
    in trace (set_params p params) = trace p @ map (\<lambda>v. (v, VSet params)) [0..<N] \<and>
       trace (setPreset p presetName) = trace p @ map (\<lambda>v. (v, VSetPreset presetName)) [0..<N] \<and>
       set (freeVoices p) \<union> set (bound_voices (activeVoices p)) \<subseteq> {0..<N} \<and>
       ((\<forall>v c. \<not> throws v c) \<longrightarrow>
          set (freeVoices p) \<union> set (bound_voices (activeVoices p)) = {0..<N}))"
proof -
  define p where "p = run stringify throws (PolySynth N) cs"
  have "pool_disjoint N p"
    unfolding p_def by (rule pool_disjoint_run [OF pool_disjoint_PolySynth])
  then have sub: "set (freeVoices p) \<union> set (bound_voices (activeVoices p)) \<subseteq> {0..<N}"
    by (simp add: pool_disjoint_def)
  have all: "(\<forall>v c. \<not> throws v c) \<longrightarrow>
      set (freeVoices p) \<union> set (bound_voices (activeVoices p)) = {0..<N}"
  proof
    assume "\<forall>v c. \<not> throws v c"
    with pool_inv_PolySynth have "pool_inv N p"
      unfolding p_def by (rule pool_inv_run)
    then show "set (freeVoices p) \<union> set (bound_voices (activeVoices p)) = {0..<N}"
      by (simp add: pool_inv_def)
  qed
  have vs: "voices p = [0..<N]"
    unfolding p_def by (rule voices_run)
  have "trace (set_params p params) = trace p @ map (\<lambda>v. (v, VSet params)) [0..<N]"
    and "trace (setPreset p presetName) = trace p @ map (\<lambda>v. (v, VSetPreset presetName)) [0..<N]"
    by (simp_all add: set_params_def setPreset_def forward_loop_trace vs)
  moreover have "set_params s params
      = s\<lparr> trace := trace s @ map (\<lambda>v. (v, VSet params)) (voices s) \<rparr>"
    and "setPreset s presetName
      = s\<lparr> trace := trace s @ map (\<lambda>v. (v, VSetPreset presetName)) (voices s) \<rparr>"
    by (simp_all add: set_params_def setPreset_def forward_loop_trace)
  ultimately show ?thesis
    unfolding Let_def p_def [symmetric] using sub all by (intro conjI)
qed

lemma scenario_free: "freeVoices (run JSON_stringify never (PolySynth 4) scenario) = [1]"
  by code_simp

lemma scenario_bound:
  "bound_voices (activeVoices (run JSON_stringify never (PolySynth 4) scenario)) = [0, 2, 3]"
  by code_simp

lemma scenario_trace:
  "trace (run JSON_stringify never (PolySynth 4) scenario) =
     [(0, VConnect), (1, VConnect), (2, VConnect), (3, VConnect),
      (0, VTriggerAttack (JStr ''C4'') (Some (TNum 0)) None),
      (1, VTriggerAttack (JStr ''E4'') (Some (TNum 0)) None),
      (2, VTriggerAttack (JStr ''G4'') (Some (TNum 0)) None),
      (3, VTriggerAttack (JStr ''C5'') None None),
      (1, VTriggerRelease None)]"
  by code_simp

text \<open>
  In the scenario the Voice 1 is free and the Voices 0, 2 and 3 are bound; all four receive
  the bundle.
\<close>

theorem bulk_set_reaches_every_voice_witness:
  "drop 9 (trace (set_params (run JSON_stringify never (PolySynth 4) scenario) portamento_params))
     = [(0, VSet portamento_params), (1, VSet portamento_params),
        (2, VSet portamento_params), (3, VSet portamento_params)] \<and>
   freeVoices (run JSON_stringify never (PolySynth 4) scenario) = [1] \<and>
   bound_voices (activeVoices (run JSON_stringify never (PolySynth 4) scenario)) = [0, 2, 3]"
proof -
  have upt: "[0..<4] = [0, 1, 2, 3::nat]"
    by code_simp
  have "trace (set_params (run JSON_stringify never (PolySynth 4) scenario) portamento_params)
      = trace (run JSON_stringify never (PolySynth 4) scenario)
        @ map (\<lambda>v. (v, VSet portamento_params)) [0..<4]"
    using bulk_set_reaches_every_voice [where stringify = JSON_stringify and throws = never
        and N = 4 and cs = scenario and params = portamento_params and s = "PolySynth 4"
        and presetName = "''Pianoetta''"]
    unfolding Let_def by blast
  then have "drop 9 (trace (set_params (run JSON_stringify never (PolySynth 4) scenario)
        portamento_params))
     = [(0, VSet portamento_params), (1, VSet portamento_params),
        (2, VSet portamento_params), (3, VSet portamento_params)]"
    by (simp add: scenario_trace upt)
  then show ?thesis
    using scenario_free scenario_bound by (intro conjI)
qed

section \<open>The velocity of an attack\<close>

lemma attack_step_forwards:
  assumes "active_voice s k = Some v \<or> (active_voice s k = None \<and> freeVoices s = v # rest)"
  shows "trace (fst (attack_step throws s k val time velocity))
     = trace s @ [(v, VTriggerAttack val time velocity)]"
proof (cases "active_voice s k")
  case (Some w)
  with assms have "w = v" by auto
  with Some show ?thesis by (simp add: attack_step_bound)
next
  case None
  with assms have "freeVoices s = v # rest" by auto
  with None show ?thesis by (simp add: attack_step_def Let_def)
qed

text \<open>
  Claim C9, as the code has it. When the velocity argument of \<^verbatim>\<open>triggerAttack\<close> is omitted,
  the velocity used for the note defaults to the full-scale value 1, and it is the Voice
  that makes it so: every attack that the call forwards to a Voice carries the velocity
  still omitted (\<^verbatim>\<open>undefined\<close>), with the identity and the time of the call, and the Voice
  that receives it starts the note at velocity 1. In particular the one attack forwarded
  for a single identity that is retriggered on its Voice or allocated the front of the Free
  List.
\<close>

theorem omitted_velocity_defaults_in_voice:
  "(let s' = fst (triggerAttack stringify throws s value time None)
    in take (length (trace s)) (trace s') = trace s \<and>
       (\<forall>e \<in> set (drop (length (trace s)) (trace s')).
          (\<exists>v val. val \<in> set (to_array value) \<and> e = (v, VTriggerAttack val time None)) \<and>
          note_velocity (snd e) = Some 1) \<and>
       (to_array value = [val] \<and> stringify val = Inr k \<and>
        (active_voice s k = Some v \<or> (active_voice s k = None \<and> freeVoices s = v # rest))
        \<longrightarrow> trace s' = trace s @ [(v, VTriggerAttack val time None)] \<and>
            note_velocity (VTriggerAttack val time None) = Some 1))"
proof -
  obtain new where new:
      "trace (fst (triggerAttack stringify throws s value time None)) = trace s @ new"
      "\<forall>e \<in> set new. \<exists>v val. val \<in> set (to_array value) \<and> e = (v, VTriggerAttack val time None)"
    unfolding triggerAttack_def using attack_loop_trace by blast
  have pre: "take (length (trace s)) (trace (fst (triggerAttack stringify throws s value time None)))
      = trace s"
    and suf: "drop (length (trace s)) (trace (fst (triggerAttack stringify throws s value time None)))
      = new"
    using appended_take_drop [OF new(1)] by blast+
  have every: "\<forall>e \<in> set new.
      (\<exists>v val. val \<in> set (to_array value) \<and> e = (v, VTriggerAttack val time None)) \<and>
      note_velocity (snd e) = Some 1"
  proof
    fix e assume "e \<in> set new"
    with new(2) obtain v val where e: "val \<in> set (to_array value)"
        "e = (v, VTriggerAttack val time None)"
      by blast
    then show "(\<exists>v val. val \<in> set (to_array value) \<and> e = (v, VTriggerAttack val time None)) \<and>
      note_velocity (snd e) = Some 1"
      by (auto simp: voice_velocity_def)
  qed
  have one: "to_array value = [val] \<and> stringify val = Inr k \<and>
        (active_voice s k = Some v \<or> (active_voice s k = None \<and> freeVoices s = v # rest))
        \<longrightarrow> trace (fst (triggerAttack stringify throws s value time None))
              = trace s @ [(v, VTriggerAttack val time None)] \<and>
            note_velocity (VTriggerAttack val time None) = Some 1"
  proof
    assume h: "to_array value = [val] \<and> stringify val = Inr k \<and>
        (active_voice s k = Some v \<or> (active_voice s k = None \<and> freeVoices s = v # rest))"
    then have step: "trace (fst (attack_step throws s k val time None))
        = trace s @ [(v, VTriggerAttack val time None)]"
      using attack_step_forwards by blast
    obtain s' e where r: "attack_step throws s k val time None = (s', e)"
      by (cases "attack_step throws s k val time None")
    have "fst (triggerAttack stringify throws s value time None) = s'"
      using h r by (cases e) (simp_all add: triggerAttack_def)
    with step r show "trace (fst (triggerAttack stringify throws s value time None))
              = trace s @ [(v, VTriggerAttack val time None)] \<and>
            note_velocity (VTriggerAttack val time None) = Some 1"
      by (simp add: voice_velocity_def)
  qed
  show ?thesis
    unfolding Let_def suf using pre every one by (intro conjI)
qed

text \<open>
  A4 attacked on a fresh pool of four Voices with time and velocity omitted: the Voice 0
  receives the attack with both still omitted, and starts the note at velocity 1.
\<close>

theorem omitted_velocity_defaults_in_voice_witness:
  "trace (fst (triggerAttack JSON_stringify never (PolySynth 4) (JStr ''A4'') None None))
     = trace (PolySynth 4) @ [(0, VTriggerAttack (JStr ''A4'') None None)] \<and>
   note_velocity (VTriggerAttack (JStr ''A4'' :: int jsval) None None) = Some 1"
proof -
  have avail: "active_voice (PolySynth 4 :: int polysynth) [CHR 0x22, CHR ''A'', CHR ''4'', CHR 0x22] = None \<and>
      freeVoices (PolySynth 4 :: int polysynth) = 0 # [1, 2, 3]"
    by code_simp
  show ?thesis
    using omitted_velocity_defaults_in_voice [of JSON_stringify never "PolySynth 4"
        "JStr ''A4''" None "JStr ''A4''" "[CHR 0x22, CHR ''A'', CHR ''4'', CHR 0x22]" 0 "[1, 2, 3]"]
      a4_key a4_single avail
    unfolding Let_def by blast
qed

text \<open>
  The claim as the specification words it fails in its last part: the attack that the pool
  forwards to the Voice does not carry the full-scale velocity 1, it carries no velocity.
\<close>

theorem omitted_velocity_counterexample:
  "last (trace (fst (triggerAttack JSON_stringify never (PolySynth 4) (JStr ''A4'') None None)))
     = (0, VTriggerAttack (JStr ''A4'') None None) \<and>
   last (trace (fst (triggerAttack JSON_stringify never (PolySynth 4) (JStr ''A4'') None None)))
     \<noteq> (0, VTriggerAttack (JStr ''A4'') None (Some 1))"
  by (simp add: a4_attacked sounding_pool_def)

section \<open>triggerAttackRelease\<close>

text \<open>
  Claim C6. Let \<^verbatim>\<open>toSeconds\<close> resolve an omitted time to \<open>now\<close>. Then
  \<^verbatim>\<open>triggerAttackRelease\<close> is the composition that the specification describes: the time
  is resolved to the instant \<open>t\<close>, the attack of the identities is issued at \<open>t\<close> and then
  the release of the same identities at \<open>t\<close> plus the duration in seconds. The calls
  that reach the Voices are attacks stamped \<open>t\<close> and releases stamped \<open>t\<close> plus the duration:
  the release is handed over with its future time within the same call.
\<close>

theorem attackRelease_is_attack_then_release:
  assumes now: "toSeconds None = now"
  shows "triggerAttackRelease stringify toSeconds throws s value duration time velocity
      = attackRelease_spec stringify toSeconds now throws s value duration time velocity \<and>
    (let s' = fst (triggerAttackRelease stringify toSeconds throws s value duration time velocity);
         t = toSeconds time
     in take (length (trace s)) (trace s') = trace s \<and>
        (\<forall>e \<in> set (drop (length (trace s)) (trace s')).
           (\<exists>v val. e = (v, VTriggerAttack val (Some (TNum t)) velocity)) \<or>
           (\<exists>v. e = (v, VTriggerRelease (Some (TNum (t + toSeconds duration)))))))"
proof -
  define t where "t = toSeconds time"
  have resolve: "(case time of None \<Rightarrow> now | Some x \<Rightarrow> toSeconds (Some x)) = t"
    using now by (cases time) (simp_all add: t_def)
  obtain s1 e1 where att: "triggerAttack stringify throws s value (Some (TNum t)) velocity = (s1, e1)"
    by (cases "triggerAttack stringify throws s value (Some (TNum t)) velocity")
  have eq: "triggerAttackRelease stringify toSeconds throws s value duration time velocity
      = attackRelease_spec stringify toSeconds now throws s value duration time velocity"
    unfolding triggerAttackRelease_def attackRelease_spec_def resolve Let_def t_def [symmetric]
    by (cases e1) (simp_all add: att)
  obtain new1 where n1: "trace s1 = trace s @ new1"
      "\<forall>e \<in> set new1. \<exists>v val. val \<in> set (to_array value)
          \<and> e = (v, VTriggerAttack val (Some (TNum t)) velocity)"
    using attack_loop_trace [of stringify throws s "to_array value" "Some (TNum t)" velocity] att
    unfolding triggerAttack_def by auto
  obtain new2 where n2:
      "trace (fst (triggerRelease stringify s1 value (Some (TNum (t + toSeconds duration)))))
        = trace s1 @ new2"
      "\<forall>e \<in> set new2. \<exists>v. e = (v, VTriggerRelease (Some (TNum (t + toSeconds duration))))"
    using release_loop_trace unfolding triggerRelease_def by blast
  define s' where
    "s' = fst (triggerAttackRelease stringify toSeconds throws s value duration time velocity)"
  have "\<exists>new. trace s' = trace s @ new \<and>
      (\<forall>e \<in> set new.
         (\<exists>v val. e = (v, VTriggerAttack val (Some (TNum t)) velocity)) \<or>
         (\<exists>v. e = (v, VTriggerRelease (Some (TNum (t + toSeconds duration))))))"
  proof (cases e1)
    case (Some err)
    then have "s' = s1"
      by (simp add: s'_def triggerAttackRelease_def t_def [symmetric] att)
    then show ?thesis using n1 by blast
  next
    case None
    then have "s' = fst (triggerRelease stringify s1 value (Some (TNum (t + toSeconds duration))))"
      by (simp add: s'_def triggerAttackRelease_def t_def [symmetric] att)
    then have "trace s' = trace s @ (new1 @ new2)"
      using n1(1) n2(1) by simp
    moreover have "\<forall>e \<in> set (new1 @ new2).
         (\<exists>v val. e = (v, VTriggerAttack val (Some (TNum t)) velocity)) \<or>
         (\<exists>v. e = (v, VTriggerRelease (Some (TNum (t + toSeconds duration)))))"
      using n1(2) n2(2) by fastforce
    ultimately show ?thesis by blast
  qed
  then obtain new where new: "trace s' = trace s @ new"
      "\<forall>e \<in> set new.
         (\<exists>v val. e = (v, VTriggerAttack val (Some (TNum t)) velocity)) \<or>
         (\<exists>v. e = (v, VTriggerRelease (Some (TNum (t + toSeconds duration)))))"
    by blast
  have pre: "take (length (trace s)) (trace s') = trace s"
    and suf: "drop (length (trace s)) (trace s') = new"
    using appended_take_drop [OF new(1)] by blast+
  show ?thesis
    unfolding Let_def s'_def [symmetric] t_def [symmetric] suf
    using eq pre new(2) by (intro conjI)
qed

lemma toSeconds_at_now: "toSeconds_at 10 None = 10"
  by (simp add: toSeconds_at_def)

lemma a4_attack_release:
  "triggerAttackRelease JSON_stringify (toSeconds_at 10) never (PolySynth 4) (JStr ''A4'')
      (Some (TNum (1/2))) None None
   = (\<lparr> voices = [0, 1, 2, 3], freeVoices = [1, 2, 3, 0],
        activeVoices = [([CHR 0x22, CHR ''A'', CHR ''4'', CHR 0x22], None)],
        trace = [(0, VConnect), (1, VConnect), (2, VConnect), (3, VConnect),
                 (0, VTriggerAttack (JStr ''A4'') (Some (TNum 10)) None),
                 (0, VTriggerRelease (Some (TNum (21/2))))] \<rparr>, None)"
  by code_simp

text \<open>
  The clock reads 10; A4 for half a second on a fresh pool of four Voices, the time
  omitted: the Voice 0 receives the attack stamped 10 and the release stamped 10.5.
\<close>

theorem attackRelease_is_attack_then_release_witness:
  "toSeconds_at 10 None = 10 \<and>
   attackRelease_spec JSON_stringify (toSeconds_at 10) 10 never (PolySynth 4) (JStr ''A4'')
      (Some (TNum (1/2))) None None
   = (\<lparr> voices = [0, 1, 2, 3], freeVoices = [1, 2, 3, 0],
        activeVoices = [([CHR 0x22, CHR ''A'', CHR ''4'', CHR 0x22], None)],
        trace = [(0, VConnect), (1, VConnect), (2, VConnect), (3, VConnect),
                 (0, VTriggerAttack (JStr ''A4'') (Some (TNum 10)) None),
                 (0, VTriggerRelease (Some (TNum (21/2))))] \<rparr>, None)"
  using attackRelease_is_attack_then_release [of "toSeconds_at 10" 10 JSON_stringify never
        "PolySynth 4" "JStr ''A4''" "Some (TNum (1/2))" None None, OF toSeconds_at_now]
    a4_attack_release toSeconds_at_now
  by simp

section \<open>setFeedback\<close>

lemma connections_setFeedback: "connections (setFeedback fe value rampTime) = connections fe"
  by (simp add: setFeedback_def)

lemma connections_setFeedback_fold:
  "connections (foldl (\<lambda>fe (value, rampTime). setFeedback fe value rampTime) fe calls)
     = connections fe"
  by (induction calls arbitrary: fe) (simp_all add: connections_setFeedback split: prod.splits)

text \<open>
  Claim C10, as the code has it. \<^verbatim>\<open>setFeedback(value, rampTime)\<close> tests the truth value of
  \<open>rampTime\<close>: with a truthy one (a number other than 0, a string other than the empty one)
  it starts the ramp of the feedback Signal to \<open>value\<close> over \<open>rampTime\<close>; with \<open>rampTime\<close>
  omitted, 0 or the empty string it sets the Signal to \<open>value\<close> at once. It touches no
  connection: after the constructor and any number of such calls the return path feeds the
  gain stage, the gain stage feeds the send path, and the feedback Signal drives the gain.
\<close>

theorem setFeedback_ramps_when_truthy:
  "(truthy rampTime \<longrightarrow>
      feedback (setFeedback fe value rampTime)
        = feedback fe @ [LinearRampToValueNow value rampTime]) \<and>
   (\<not> truthy rampTime \<longrightarrow>
      feedback (setFeedback fe value rampTime) = feedback fe @ [SetValue value]) \<and>
   feedback (setFeedback fe value None) = feedback fe @ [SetValue value] \<and>
   connections (setFeedback fe value rampTime) = connections fe \<and>
   connections (foldl (\<lambda>fe (value, rampTime). setFeedback fe value rampTime)
       (FeedbackEffect initialFeedback) calls)
     = [(EffectReturn, FeedbackGain), (FeedbackGain, EffectSend),
        (FeedbackSignal, FeedbackGainParam)]"
proof -
  have "connections (FeedbackEffect initialFeedback)
      = [(EffectReturn, FeedbackGain), (FeedbackGain, EffectSend),
         (FeedbackSignal, FeedbackGainParam)]"
    by (simp add: FeedbackEffect_def)
  then show ?thesis
    by (simp add: connections_setFeedback_fold) (simp add: setFeedback_def)
qed

text \<open>
  On an effect built with the default feedback: a ramp over two seconds, then a call
  without a ramp time.
\<close>

theorem setFeedback_ramps_when_truthy_witness:
  "truthy (Some (TNum 2)) \<and> \<not> truthy None \<and>
   feedback (setFeedback (setFeedback (FeedbackEffect None) (1/2) (Some (TNum 2))) (1/4) None)
     = [NewSignal (1/8), LinearRampToValueNow (1/2) (Some (TNum 2)), SetValue (1/4)]"
proof -
  have t: "truthy (Some (TNum 2))" and f: "\<not> truthy None"
    by simp_all
  have "feedback (setFeedback (FeedbackEffect None) (1/2) (Some (TNum 2)))
      = feedback (FeedbackEffect None) @ [LinearRampToValueNow (1/2) (Some (TNum 2))]"
    using setFeedback_ramps_when_truthy [of "Some (TNum 2)" "FeedbackEffect None" "1/2"] t
    by blast
  moreover have "feedback (setFeedback (setFeedback (FeedbackEffect None) (1/2) (Some (TNum 2)))
        (1/4) None)
      = feedback (setFeedback (FeedbackEffect None) (1/2) (Some (TNum 2))) @ [SetValue (1/4)]"
    using setFeedback_ramps_when_truthy [of None
        "setFeedback (FeedbackEffect None) (1/2) (Some (TNum 2))" "1/4"] f
    by blast
  ultimately show ?thesis
    using t f by (simp add: FeedbackEffect_def)
qed

text \<open>
  The claim as the specification words it fails for a ramp time that is given and falsy:
  with the ramp time 0 no ramp is started, the value is set at once.
\<close>

theorem setFeedback_given_ramp_counterexample:
  "feedback (setFeedback (FeedbackEffect None) (1/2) (Some (TNum 0)))
     = [NewSignal (1/8), SetValue (1/2)] \<and>
   feedback (setFeedback (FeedbackEffect None) (1/2) (Some (TNum 0)))
     \<noteq> [NewSignal (1/8), LinearRampToValueNow (1/2) (Some (TNum 0))]"
  by (simp add: setFeedback_def FeedbackEffect_def)

end
